theory Spec2Isabelle
  imports Main "HOL-Library.Multiset"
begin

section \<open>Data model of \<open>stable_matching.py\<close>\<close>

text \<open>
  A Python \<open>dict\<close> keeps its keys in insertion order and the program depends on that order
  (\<open>sides[0]\<close>, the iteration over \<open>engagements.items()\<close>), so every dict is an association
  list in insertion order. A dict object never holds a key twice; the operations below keep
  that, and the theorems assume it of the input where they need it.
\<close>

type_synonym person = string
type_synonym preferences = "person list"
type_synonym side = "(person \<times> preferences) list"
type_synonym participants = "(string \<times> side) list"
type_synonym pair = "person \<times> person"
type_synonym matching = "(person \<times> person) list"

datatype error = MissingPreferences | KeyError | IndexError

text \<open>\<open>d[k] = v\<close>: an existing key keeps its position, a new key goes to the end.\<close>

fun dict_set :: "'k \<Rightarrow> 'v \<Rightarrow> ('k \<times> 'v) list \<Rightarrow> ('k \<times> 'v) list" where
  "dict_set k v [] = [(k, v)]"
| "dict_set k v ((k', v') # d) =
     (if k' = k then (k, v) # d else (k', v') # dict_set k v d)"

text \<open>\<open>del d[k]\<close>: raises \<open>KeyError\<close> (here \<open>None\<close>) when the key is absent.\<close>

definition dict_del :: "'k \<Rightarrow> ('k \<times> 'v) list \<Rightarrow> ('k \<times> 'v) list option" where
  "dict_del k d =
     (if k \<in> set (map fst d) then Some (filter (\<lambda>kv. fst kv \<noteq> k) d) else None)"

section \<open>The helper functions\<close>

text \<open>\<open>other_side\<close> falls through its loop, returning Python's \<open>None\<close>, when no other side exists.\<close>

fun other_side :: "string \<Rightarrow> string list \<Rightarrow> string option" where
  "other_side current_side [] = None"
| "other_side current_side (s # all_sides) =
     (if s \<noteq> current_side then Some s else other_side current_side all_sides)"

text \<open>
  The two inner loops of \<open>all_preferences\<close>: they return \<open>False\<close> at the first participant of
  the other side missing from a preference list, and have no other effect.
\<close>

definition check_people :: "side \<Rightarrow> person list \<Rightarrow> bool" where
  "check_people people other_side_participants =
     list_all (\<lambda>(name, preferences).
        list_all (\<lambda>p. p \<in> set preferences) other_side_participants) people"

text \<open>
  The outer loop of \<open>all_preferences\<close>. \<open>participants[other_side(side, sides)]\<close> raises
  \<open>KeyError\<close> when \<open>other_side\<close> returned \<open>None\<close>.
\<close>

fun all_preferences_loop ::
  "participants \<Rightarrow> string list \<Rightarrow> participants \<Rightarrow> error + bool" where
  "all_preferences_loop participants sides [] = Inr True"
| "all_preferences_loop participants sides ((side, people) # rest) =
     (case other_side side sides of
        None \<Rightarrow> Inl KeyError
      | Some other \<Rightarrow>
          (case map_of participants other of
             None \<Rightarrow> Inl KeyError
           | Some other_side_participants \<Rightarrow>
               if check_people people (map fst other_side_participants)
               then all_preferences_loop participants sides rest
               else Inr False))"

definition all_preferences :: "participants \<Rightarrow> error + bool" where
  "all_preferences participants =
     all_preferences_loop participants (map fst participants) participants"

definition is_free :: "person \<Rightarrow> matching \<Rightarrow> bool" where
  "is_free person engaged = (person \<notin> set (map fst engaged))"

definition current_match :: "person \<Rightarrow> matching \<Rightarrow> person option" where
  "current_match person engaged = map_of engaged person"

definition free_participants :: "person list \<Rightarrow> matching \<Rightarrow> person list" where
  "free_participants people engaged = filter (\<lambda>x. x \<notin> set (map fst engaged)) people"

text \<open>
  \<open>preferred\<close> returns \<open>True\<close>, \<open>False\<close>, or falls through its loop and returns Python's
  \<open>None\<close>, which an \<open>if\<close> treats as false.
\<close>

fun preferred :: "person \<Rightarrow> person \<Rightarrow> preferences \<Rightarrow> bool option" where
  "preferred a b [] = None"
| "preferred a b (preference # preferences) =
     (if preference = a then Some True
      else if preference = b then Some False
      else preferred a b preferences)"

section \<open>The proposal loop\<close>

text \<open>
  The mutable state of the loop. \<open>proposal_history\<close> is created with one (empty) entry for
  every proposer and is only ever indexed by a proposer, so it is a total function from the
  proposer to the targets it has proposed to.
\<close>

record state =
  proposal_history :: "person \<Rightarrow> person list"
  engagements :: matching

definition initial :: state where
  "initial = \<lparr>proposal_history = (\<lambda>k. []), engagements = []\<rparr>"

text \<open>The first entry of the preference list that is not in the proposer's history.\<close>

definition next_target :: "preferences \<Rightarrow> person list \<Rightarrow> person option" where
  "next_target preferences proposed = find (\<lambda>target. target \<notin> set proposed) preferences"

text \<open>
  One pass of the body of \<open>for proposer in free_proposers\<close> (lines 134 to 157): at most one
  proposal, to the first target not proposed to yet. Every lookup that Python makes with
  \<open>d[k]\<close> or \<open>del d[k]\<close> has its \<open>KeyError\<close> branch; \<open>engagements.get(target)\<close> cannot return
  \<open>None\<close> where the target is not free, and that branch of the model is never taken.
\<close>

definition propose :: "side \<Rightarrow> side \<Rightarrow> person \<Rightarrow> state \<Rightarrow> error + state" where
  "propose proposers receivers proposer st =
     (case map_of proposers proposer of
        None \<Rightarrow> Inl KeyError
      | Some preferences \<Rightarrow>
          (case next_target preferences (proposal_history st proposer) of
             None \<Rightarrow> Inr st
           | Some target \<Rightarrow>
               let history = (proposal_history st)
                               (proposer := target # proposal_history st proposer);
                   engaged = engagements st
               in if is_free target engaged
                  then Inr \<lparr>proposal_history = history,
                           engagements = dict_set target proposer
                                           (dict_set proposer target engaged)\<rparr>
                  else (case current_match target engaged of
                          None \<Rightarrow> Inl KeyError
                        | Some current \<Rightarrow>
                            (case map_of receivers target of
                               None \<Rightarrow> Inl KeyError
                             | Some target_preferences \<Rightarrow>
                                 if preferred proposer current target_preferences = Some True
                                 then (case dict_del current
                                              (dict_set proposer target
                                                 (dict_set target proposer engaged)) of
                                         None \<Rightarrow> Inl KeyError
                                       | Some engaged' \<Rightarrow>
                                           Inr \<lparr>proposal_history = history,
                                                engagements = engaged'\<rparr>)
                                 else Inr \<lparr>proposal_history = history,
                                           engagements = engaged\<rparr>))))"

text \<open>The \<open>for\<close> loop over the free proposers: one sweep.\<close>

fun sweep :: "side \<Rightarrow> side \<Rightarrow> person list \<Rightarrow> state \<Rightarrow> error + state" where
  "sweep proposers receivers [] st = Inr st"
| "sweep proposers receivers (proposer # rest) st =
     (case propose proposers receivers proposer st of
        Inl e \<Rightarrow> Inl e
      | Inr st' \<Rightarrow> sweep proposers receivers rest st')"

text \<open>
  The body of the \<open>while\<close> loop: a sweep, then line 160, which filters the list that was
  just swept.
\<close>

definition round ::
  "side \<Rightarrow> side \<Rightarrow> person list \<times> state \<Rightarrow> error + person list \<times> state" where
  "round proposers receivers c =
     (case sweep proposers receivers (fst c) (snd c) of
        Inl e \<Rightarrow> Inl e
      | Inr st' \<Rightarrow> Inr (free_participants (fst c) (engagements st'), st'))"

text \<open>
  \<open>while free_proposers\<close>. The loop need not end, so it runs on fuel, one unit for each
  sweep; \<open>None\<close> says the fuel ran out with the loop still running.
\<close>

fun while_loop ::
  "nat \<Rightarrow> side \<Rightarrow> side \<Rightarrow> person list \<times> state \<Rightarrow> (error + state) option" where
  "while_loop fuel proposers receivers (free_proposers, st) =
     (if free_proposers = [] then Some (Inr st)
      else (case fuel of
              0 \<Rightarrow> None
            | Suc fuel' \<Rightarrow>
                (case round proposers receivers (free_proposers, st) of
                   Inl e \<Rightarrow> Some (Inl e)
                 | Inr c' \<Rightarrow> while_loop fuel' proposers receivers c')))"

text \<open>The state after a number of sweeps, for looking at the loop between sweeps.\<close>

fun rounds ::
  "nat \<Rightarrow> side \<Rightarrow> side \<Rightarrow> person list \<times> state \<Rightarrow> error + person list \<times> state" where
  "rounds 0 proposers receivers c = Inr c"
| "rounds (Suc n) proposers receivers c =
     (case round proposers receivers c of
        Inl e \<Rightarrow> Inl e
      | Inr c' \<Rightarrow> rounds n proposers receivers c')"

section \<open>Composing the result\<close>

text \<open>
  Lines 163 to 168: the loop that fills the set \<open>stable_matchings\<close>. Here the set is the list
  of its elements in the order they were added; \<open>add\<close> leaves a set that holds the element
  as it is.
\<close>

fun compose :: "matching \<Rightarrow> pair list \<Rightarrow> pair list" where
  "compose [] stable_matchings = stable_matchings"
| "compose ((a, b) # items) stable_matchings =
     compose items
       (if (b, a) \<notin> set stable_matchings
        then (if (a, b) \<in> set stable_matchings then stable_matchings
              else stable_matchings @ [(a, b)])
        else stable_matchings)"

text \<open>
  Line 170, \<open>list(stable_matchings)\<close>. Python enumerates a set of tuples of strings in an
  order that follows the hashes of the strings, which the interpreter seeds anew in every
  process: the program does not fix the order. The enumeration is therefore a parameter of
  the model, a function from the elements as they were added to the list that is returned,
  and all that is known of it is that it is a permutation.
\<close>

definition enumeration :: "(pair list \<Rightarrow> pair list) \<Rightarrow> bool" where
  "enumeration enum = (\<forall>xs. mset (enum xs) = mset xs)"

section \<open>\<open>stable_matching\<close>\<close>

text \<open>
  The whole function, given the enumeration of the result set and on fuel for its \<open>while\<close>
  loop. \<open>sides[0]\<close> raises \<open>IndexError\<close> on an empty dict, and \<open>participants[receiving]\<close>
  raises \<open>KeyError\<close> when \<open>other_side\<close> returned \<open>None\<close>. The \<open>print\<close> of line 145 does not
  touch the state and is left out.
\<close>

definition stable_matching ::
  "(pair list \<Rightarrow> pair list) \<Rightarrow> nat \<Rightarrow> participants \<Rightarrow> (error + pair list) option" where
  "stable_matching enum fuel participants =
     (case all_preferences participants of
        Inl e \<Rightarrow> Some (Inl e)
      | Inr complete \<Rightarrow>
          if \<not> complete then Some (Inl MissingPreferences)
          else (case map fst participants of
                  [] \<Rightarrow> Some (Inl IndexError)
                | proposing # _ \<Rightarrow>
                    (case map_of participants proposing of
                       None \<Rightarrow> Some (Inl KeyError)
                     | Some proposers \<Rightarrow>
                         (case Option.bind (other_side proposing (map fst participants))
                                 (map_of participants) of
                            None \<Rightarrow> Some (Inl KeyError)
                          | Some receivers \<Rightarrow>
                              (case while_loop fuel proposers receivers
                                      (map fst proposers, initial) of
                                 None \<Rightarrow> None
                               | Some (Inl e) \<Rightarrow> Some (Inl e)
                               | Some (Inr st) \<Rightarrow>
                                   Some (Inr (enum (compose (engagements st) []))))))))"

section \<open>The example of the module\<close>

definition sample_proposers :: side where
  "sample_proposers =
     [(''abc'', [''123'', ''451'', ''912'']),
      (''asd'', [''123'', ''912'', ''451'']),
      (''pqq'', [''123'', ''451'', ''912''])]"

definition sample_receivers :: side where
  "sample_receivers =
     [(''123'', [''pqq'', ''asd'', ''abc'']),
      (''451'', [''asd'', ''pqq'', ''abc'']),
      (''912'', [''pqq'', ''asd'', ''abc''])]"

definition sample_participants :: participants where
  "sample_participants = [(''side_A'', sample_proposers), (''side_B'', sample_receivers)]"

section \<open>Inputs on which the loop departs from deferred acceptance\<close>

text \<open>
  Three proposers and three receivers, complete strict preference lists: \<open>c\<close> is engaged
  in the first sweep and displaced in the second.
\<close>

definition displaced_proposers :: side where
  "displaced_proposers =
     [(''a'', [''x'', ''y'', ''z'']), (''b'', [''x'', ''y'', ''z'']),
      (''c'', [''y'', ''x'', ''z''])]"

definition displaced_receivers :: side where
  "displaced_receivers =
     [(''x'', [''a'', ''b'', ''c'']), (''y'', [''b'', ''c'', ''a'']),
      (''z'', [''a'', ''b'', ''c''])]"

text \<open>Two proposers and one receiver.\<close>

definition surplus_proposers :: side where
  "surplus_proposers = [(''a'', [''x'']), (''b'', [''x''])]"

definition surplus_receivers :: side where
  "surplus_receivers = [(''x'', [''a'', ''b''])]"

text \<open>Four proposers and four receivers: a third sweep starts with \<open>c\<close> displaced.\<close>

definition stale_proposers :: side where
  "stale_proposers =
     [(''a'', [''x'', ''y'', ''z'', ''w'']), (''b'', [''x'', ''y'', ''z'', ''w'']),
      (''c'', [''y'', ''x'', ''z'', ''w'']), (''d'', [''x'', ''y'', ''z'', ''w''])]"

definition stale_receivers :: side where
  "stale_receivers =
     [(''x'', [''a'', ''b'', ''c'', ''d'']), (''y'', [''b'', ''c'', ''d'', ''a'']),
      (''z'', [''a'', ''b'', ''c'', ''d'']), (''w'', [''a'', ''b'', ''c'', ''d''])]"

text \<open>Two proposers after one receiver, who prefers the second: the first is displaced.\<close>

definition rival_proposers :: side where
  "rival_proposers = [(''a'', [''x'']), (''b'', [''x''])]"

definition rival_receivers :: side where
  "rival_receivers = [(''x'', [''b'', ''a''])]"

section \<open>Inputs that pass the validation outside the data model\<close>

text \<open>
  The validation asks only that every participant of the other side be in each list. Here
  the sides are disjoint and the lists complete, but proposer \<open>a\<close> also ranks proposer \<open>b\<close>.
\<close>

definition crossed_proposers :: side where
  "crossed_proposers = [(''a'', [''b'', ''x'']), (''b'', [''x''])]"

definition crossed_receivers :: side where
  "crossed_receivers = [(''x'', [''a'', ''b''])]"

text \<open>Here \<open>a\<close> is a key of both sides.\<close>

definition overlapping_proposers :: side where
  "overlapping_proposers = [(''a'', [''x'', ''a'']), (''b'', [''a'', ''x''])]"

definition overlapping_receivers :: side where
  "overlapping_receivers = [(''x'', [''a'', ''b'']), (''a'', [''a'', ''b''])]"

section \<open>Blocking pairs\<close>

text \<open>
  The stability property, following the specification: the partner a participant has in the
  output (in either orientation of the pair), whether a participant would rather have a
  candidate than what it was assigned, and a blocking pair of a proposer and a receiver.
\<close>

definition partner :: "pair list \<Rightarrow> person \<Rightarrow> person option" where
  "partner out x =
     (case find (\<lambda>(a, b). a = x \<or> b = x) out of
        None \<Rightarrow> None
      | Some (a, b) \<Rightarrow> Some (if a = x then b else a))"

definition prefers :: "preferences \<Rightarrow> person \<Rightarrow> person option \<Rightarrow> bool" where
  "prefers prefs candidate assigned =
     (case assigned of
        None \<Rightarrow> True
      | Some current \<Rightarrow> current \<noteq> candidate \<and> preferred candidate current prefs = Some True)"

definition blocking_pair :: "side \<Rightarrow> side \<Rightarrow> pair list \<Rightarrow> person \<Rightarrow> person \<Rightarrow> bool" where
  "blocking_pair proposers receivers out p r =
     (case (map_of proposers p, map_of receivers r) of
        (Some p_prefs, Some r_prefs) \<Rightarrow>
          (p, r) \<notin> set out \<and> (r, p) \<notin> set out \<and>
          prefers p_prefs r (partner out p) \<and> prefers r_prefs p (partner out r)
      | _ \<Rightarrow> False)"

section \<open>Properties of the loop state\<close>

text \<open>The engagement map is symmetric: whenever \<open>engagements[x] = y\<close>, also \<open>engagements[y] = x\<close>.\<close>

definition symmetric :: "matching \<Rightarrow> bool" where
  "symmetric engaged =
     (\<forall>x y. current_match x engaged = Some y \<longrightarrow> current_match y engaged = Some x)"

text \<open>
  What the loop relies on and the validation does not check: the proposing side is a dict
  (no key twice), and no proposer's preference list names a proposer. Both hold in the data
  model of the specification, where the two sides are disjoint and a preference list ranks
  the members of the other side.
\<close>

definition well_formed :: "side \<Rightarrow> bool" where
  "well_formed proposers =
     (distinct (map fst proposers) \<and>
      (\<forall>(name, preferences) \<in> set proposers.
         set preferences \<inter> set (map fst proposers) = {}))"

text \<open>Every entry of the engagement map joins a proposer and a person who is not one.\<close>

definition couples :: "side \<Rightarrow> matching \<Rightarrow> bool" where
  "couples proposers engaged =
     (\<forall>k v. current_match k engaged = Some v \<longrightarrow>
        (k \<in> set (map fst proposers)) = (v \<notin> set (map fst proposers)))"

definition engaged_inv :: "side \<Rightarrow> matching \<Rightarrow> bool" where
  "engaged_inv proposers engaged =
     (symmetric engaged \<and> distinct (map fst engaged) \<and> couples proposers engaged)"

text \<open>
  The invariant of the inner \<open>for\<close> loop, with \<open>todo\<close> the proposers still to come in the
  current sweep: they are distinct proposers and still free.
\<close>

definition loop_inv :: "side \<Rightarrow> person list \<Rightarrow> state \<Rightarrow> bool" where
  "loop_inv proposers todo st =
     (engaged_inv proposers (engagements st) \<and>
      distinct todo \<and> set todo \<subseteq> set (map fst proposers) \<and>
      (\<forall>p \<in> set todo. is_free p (engagements st)))"

text \<open>
  The points between the individual proposal steps of the loop. A configuration is the rest
  of the list being swept, the list being swept, and the state. The loop starts sweeping
  the keys of \<open>proposers\<close>; one pass of the \<open>for\<close> body takes the next proposer; at the end
  of a sweep line 160 filters the swept list, and the next sweep (if the list is not empty)
  starts on the result.
\<close>

inductive reachable :: "side \<Rightarrow> side \<Rightarrow> person list \<times> person list \<times> state \<Rightarrow> bool"
  for proposers receivers where
  start: "reachable proposers receivers (map fst proposers, map fst proposers, initial)"
| proposal:
    "reachable proposers receivers (proposer # todo, free_proposers, st) \<Longrightarrow>
     propose proposers receivers proposer st = Inr st' \<Longrightarrow>
     reachable proposers receivers (todo, free_proposers, st')"
| next_sweep:
    "reachable proposers receivers ([], free_proposers, st) \<Longrightarrow>
     still_free = free_participants free_proposers (engagements st) \<Longrightarrow>
     reachable proposers receivers (still_free, still_free, st)"

text \<open>A list of pairs that never holds a pair together with its reverse.\<close>

definition one_way :: "pair list \<Rightarrow> bool" where
  "one_way ps = (\<forall>a b. (a, b) \<in> set ps \<longrightarrow> (b, a) \<notin> set ps)"

section \<open>Running the model\<close>

lemmas run_defs = stable_matching_def all_preferences_def check_people_def round_def
  propose_def next_target_def is_free_def current_match_def dict_del_def
  free_participants_def initial_def

lemma enumeration_set: "enumeration enum \<Longrightarrow> set (enum xs) = set xs"
  unfolding enumeration_def by (metis set_mset_mset)

lemma enumeration_length: "enumeration enum \<Longrightarrow> length (enum xs) = length xs"
  unfolding enumeration_def by (metis size_mset)

lemma enumeration_distinct: "enumeration enum \<Longrightarrow> distinct (enum xs) = distinct xs"
  unfolding enumeration_def by (metis mset_eq_imp_distinct_iff)

lemma enumeration_id: "enumeration id"
  by (simp add: enumeration_def)

lemma enumeration_rev: "enumeration rev"
  by (simp add: enumeration_def)

lemma partner_None:
  assumes "\<forall>(a, b) \<in> set out. a \<noteq> x \<and> b \<noteq> x"
  shows "partner out x = None"
proof -
  have "find (\<lambda>(a, b). a = x \<or> b = x) out = None"
    using assms by (auto simp: find_None_iff)
  then show ?thesis by (simp add: partner_def)
qed

lemma sample_run:
  "stable_matching enum (Suc (Suc n)) sample_participants =
     Some (Inr (enum [(''123'', ''pqq''), (''abc'', ''451''), (''asd'', ''912'')]))"
  by (simp add: run_defs sample_participants_def sample_proposers_def sample_receivers_def)

text \<open>
  C8. On the example of the module (proposers \<open>abc\<close>, \<open>asd\<close>, \<open>pqq\<close>; receivers \<open>123\<close>,
  \<open>451\<close>, \<open>912\<close>) \<open>stable_matching\<close> returns after two sweeps; whatever the order in which
  the result set is enumerated, the list has three pairs, and they are exactly the three
  couples \<open>{123, pqq}\<close>, \<open>{451, abc}\<close> and \<open>{912, asd}\<close>.
\<close>

theorem sample_result:
  assumes "enumeration enum"
  shows "stable_matching enum (Suc (Suc n)) sample_participants =
           Some (Inr (enum [(''123'', ''pqq''), (''abc'', ''451''), (''asd'', ''912'')])) \<and>
         length (enum [(''123'', ''pqq''), (''abc'', ''451''), (''asd'', ''912'')]) = 3 \<and>
         (\<lambda>(a, b). {a, b}) ` set (enum [(''123'', ''pqq''), (''abc'', ''451''), (''asd'', ''912'')]) =
           {{''123'', ''pqq''}, {''451'', ''abc''}, {''912'', ''asd''}}"
  using sample_run [of enum n] enumeration_set [OF assms] enumeration_length [OF assms]
  by (simp add: insert_commute)

theorem sample_result_witness:
  "enumeration rev \<and>
   stable_matching rev 2 sample_participants =
     Some (Inr [(''asd'', ''912''), (''abc'', ''451''), (''123'', ''pqq'')]) \<and>
   length [(''asd'', ''912''), (''abc'', ''451''), (''123'', ''pqq'')] = 3"
  using sample_result [OF enumeration_rev, of 0] enumeration_rev
  by (simp add: numeral_2_eq_2)

lemma displaced_run:
  "stable_matching enum (Suc (Suc n))
     [(''A'', displaced_proposers), (''B'', displaced_receivers)]
     = Some (Inr (enum [(''a'', ''x''), (''y'', ''b'')]))"
  by (simp add: run_defs displaced_proposers_def displaced_receivers_def)

text \<open>
  C1. The claim fails on the code: on three proposers and three receivers with complete
  strict lists the result pairs \<open>a\<close> with \<open>x\<close> and \<open>b\<close> with \<open>y\<close> only, in whatever order the
  two pairs are enumerated; \<open>c\<close>, displaced in the second sweep, and \<open>z\<close> are both left
  unmatched, and form a blocking pair.
\<close>

theorem displaced_proposer_blocks:
  assumes "enumeration enum"
  shows "stable_matching enum (Suc (Suc n))
           [(''A'', displaced_proposers), (''B'', displaced_receivers)]
           = Some (Inr (enum [(''a'', ''x''), (''y'', ''b'')])) \<and>
         blocking_pair displaced_proposers displaced_receivers
           (enum [(''a'', ''x''), (''y'', ''b'')]) ''c'' ''z''"
proof -
  have s: "set (enum [(''a'', ''x''), (''y'', ''b'')]) = {(''a'', ''x''), (''y'', ''b'')}"
    using enumeration_set [OF assms] by simp
  have c: "partner (enum [(''a'', ''x''), (''y'', ''b'')]) ''c'' = None"
    by (rule partner_None) (simp add: s)
  have z: "partner (enum [(''a'', ''x''), (''y'', ''b'')]) ''z'' = None"
    by (rule partner_None) (simp add: s)
  have "blocking_pair displaced_proposers displaced_receivers
          (enum [(''a'', ''x''), (''y'', ''b'')]) ''c'' ''z''"
    unfolding blocking_pair_def
    by (simp add: displaced_proposers_def displaced_receivers_def prefers_def s c z)
  then show ?thesis using displaced_run [of enum n] by simp
qed

theorem displaced_proposer_blocks_witness:
  "enumeration rev \<and>
   stable_matching rev 2 [(''A'', displaced_proposers), (''B'', displaced_receivers)]
     = Some (Inr [(''y'', ''b''), (''a'', ''x'')]) \<and>
   blocking_pair displaced_proposers displaced_receivers
     [(''y'', ''b''), (''a'', ''x'')] ''c'' ''z''"
  using displaced_proposer_blocks [OF enumeration_rev, of 0] enumeration_rev
  by (simp add: numeral_2_eq_2)

lemma surplus_stuck:
  "while_loop n surplus_proposers surplus_receivers
     ([''b''], \<lparr>proposal_history = (\<lambda>k. [])(''a'' := [''x''], ''b'' := [''x'']),
               engagements = [(''a'', ''x''), (''x'', ''a'')]\<rparr>) = None"
  by (induction n) (simp_all add: run_defs surplus_proposers_def surplus_receivers_def)

text \<open>
  C2. The claim fails on the code: with two proposers and one receiver the input passes
  validation and the loop never ends. The rejected proposer \<open>b\<close> has no target left, stays
  free, and every further sweep leaves the state as it was: whatever the fuel, it runs out.
\<close>

theorem surplus_proposer_loops_forever:
  "stable_matching enum fuel [(''A'', surplus_proposers), (''B'', surplus_receivers)] = None"
proof (cases fuel)
  case 0
  then show ?thesis
    by (simp add: run_defs surplus_proposers_def surplus_receivers_def)
next
  case (Suc n)
  have "while_loop (Suc n) surplus_proposers surplus_receivers
          (map fst surplus_proposers, initial) = None"
    using surplus_stuck [of n]
    by (simp add: run_defs surplus_proposers_def surplus_receivers_def)
  then show ?thesis using Suc
    by (simp add: stable_matching_def all_preferences_def check_people_def
          surplus_proposers_def surplus_receivers_def)
qed

text \<open>
  C3. The claim fails on the code: after two sweeps on four proposers and four receivers
  the list swept next is \<open>[d]\<close>, while the proposers absent from the engagement map are
  \<open>c\<close> and \<open>d\<close>. When the loop ends, \<open>c\<close>, displaced by \<open>b\<close> in the second sweep, is free and
  has proposed to \<open>y\<close> only, the first entry of its list.
\<close>

theorem displaced_proposer_not_swept:
  "rounds 2 stale_proposers stale_receivers (map fst stale_proposers, initial) =
     Inr ([''d''],
          \<lparr>proposal_history =
             (\<lambda>k. [])(''a'' := [''x''], ''b'' := [''y'', ''x''], ''c'' := [''y''],
                     ''d'' := [''y'', ''x'']),
           engagements = [(''a'', ''x''), (''x'', ''a''), (''y'', ''b''), (''b'', ''y'')]\<rparr>) \<and>
   free_participants (map fst stale_proposers)
     [(''a'', ''x''), (''x'', ''a''), (''y'', ''b''), (''b'', ''y'')] = [''c'', ''d''] \<and>
   (case while_loop (Suc (Suc (Suc n))) stale_proposers stale_receivers
           (map fst stale_proposers, initial) of
      Some (Inr st) \<Rightarrow>
        proposal_history st ''c'' = [''y''] \<and> is_free ''c'' (engagements st) \<and>
        map_of stale_proposers ''c'' = Some [''y'', ''x'', ''z'', ''w'']
    | _ \<Rightarrow> False)"
  apply (simp add: run_defs stale_proposers_def stale_receivers_def numeral_2_eq_2)
  apply (auto simp: fun_eq_iff)
  done

section \<open>Dicts\<close>

lemma map_of_dict_set: "map_of (dict_set k v d) = (map_of d)(k \<mapsto> v)"
  by (induction d) (auto simp: fun_eq_iff)

lemma map_fst_dict_set:
  "map fst (dict_set k v d) = (if k \<in> set (map fst d) then map fst d else map fst d @ [k])"
proof (induction d)
  case Nil
  show ?case by simp
next
  case (Cons kv d)
  obtain k' v' where kv: "kv = (k', v')" by (cases kv)
  show ?case
  proof (cases "k' = k")
    case True
    then show ?thesis using kv by simp
  next
    case False
    then show ?thesis using kv Cons.IH by simp
  qed
qed

lemma distinct_dict_set: "distinct (map fst d) \<Longrightarrow> distinct (map fst (dict_set k v d))"
  by (simp add: map_fst_dict_set)

lemma map_of_filter_key: "map_of (filter (\<lambda>kv. fst kv \<noteq> k) d) = (map_of d)(k := None)"
  by (induction d) (auto simp: fun_eq_iff)

lemma dict_del_Some:
  "dict_del k d = Some d' \<Longrightarrow> map_of d' = (map_of d)(k := None)"
proof -
  assume "dict_del k d = Some d'"
  then have "d' = filter (\<lambda>kv. fst kv \<noteq> k) d"
    unfolding dict_del_def by (simp split: if_splits)
  then show ?thesis by (simp only: map_of_filter_key)
qed

lemma dict_del_distinct:
  "dict_del k d = Some d' \<Longrightarrow> distinct (map fst d) \<Longrightarrow> distinct (map fst d')"
  unfolding dict_del_def by (auto simp: distinct_map_filter split: if_splits)

lemma is_free_map_of: "is_free p d = (map_of d p = None)"
  by (simp add: is_free_def map_of_eq_None_iff)

section \<open>The invariant of the proposal loop\<close>

lemma symmetric_engage:
  assumes s: "symmetric d" and p: "map_of d p = None" and t: "map_of d t = None"
    and m: "\<And>z. map_of d' z = (if z = t then Some p else if z = p then Some t else map_of d z)"
  shows "symmetric d'"
  unfolding symmetric_def current_match_def
proof (intro allI impI)
  fix x y assume xy: "map_of d' x = Some y"
  show "map_of d' y = Some x"
  proof (cases "x = p \<or> x = t")
    case True
    then show ?thesis using xy by (auto simp: m split: if_splits)
  next
    case False
    then have dxy: "map_of d x = Some y" using xy by (simp add: m)
    then have dyx: "map_of d y = Some x"
      using s unfolding symmetric_def current_match_def by blast
    then have "y \<noteq> p" "y \<noteq> t" using p t by auto
    then show ?thesis using dyx by (simp add: m)
  qed
qed

lemma symmetric_replace:
  assumes s: "symmetric d" and p: "map_of d p = None" and t: "map_of d t = Some c"
    and ct: "c \<noteq> t"
    and m: "\<And>z. map_of d' z =
              (if z = c then None else if z = p then Some t else if z = t then Some p
               else map_of d z)"
  shows "symmetric d'"
  unfolding symmetric_def current_match_def
proof (intro allI impI)
  fix x y assume xy: "map_of d' x = Some y"
  have c: "map_of d c = Some t"
    using s t unfolding symmetric_def current_match_def by blast
  have cp: "c \<noteq> p" using c p by auto
  have tp: "t \<noteq> p" using t p by auto
  have xc: "x \<noteq> c" using xy by (auto simp: m)
  show "map_of d' y = Some x"
  proof (cases "x = p \<or> x = t")
    case True
    then show ?thesis using xy cp ct tp by (auto simp: m split: if_splits)
  next
    case False
    then have dxy: "map_of d x = Some y" using xy xc by (simp add: m)
    then have dyx: "map_of d y = Some x"
      using s unfolding symmetric_def current_match_def by blast
    have "y \<noteq> p" using dyx p by auto
    moreover have "y \<noteq> t" using dyx t xc by auto
    moreover have "y \<noteq> c" using dyx c False by auto
    ultimately show ?thesis using dyx by (simp add: m)
  qed
qed

lemma couplesD:
  "couples P d \<Longrightarrow> map_of d k = Some v \<Longrightarrow>
     (k \<in> set (map fst P)) = (v \<notin> set (map fst P))"
  unfolding couples_def current_match_def by blast

lemma find_SomeD: "find Q xs = Some x \<Longrightarrow> x \<in> set xs \<and> Q x"
  by (induction xs) (auto split: if_splits)

lemma propose_engagements:
  assumes "propose P R p st = Inr st'" and "map_of P p = Some prefs"
  shows "engagements st' = engagements st \<or>
         (\<exists>t \<in> set prefs.
            (is_free t (engagements st) \<and>
             engagements st' = dict_set t p (dict_set p t (engagements st))) \<or>
            (\<exists>c. current_match t (engagements st) = Some c \<and>
                 dict_del c (dict_set p t (dict_set t p (engagements st)))
                   = Some (engagements st')))"
proof (cases "next_target prefs (proposal_history st p)")
  case None
  then show ?thesis using assms by (simp add: propose_def)
next
  case (Some t)
  then have "t \<in> set prefs" by (auto simp: next_target_def dest: find_SomeD)
  then show ?thesis using assms Some
    by (auto simp: propose_def Let_def split: if_splits option.splits)
qed

lemma engaged_inv_engage:
  assumes inv: "engaged_inv P d" and p: "map_of d p = None" and t: "map_of d t = None"
    and pP: "p \<in> set (map fst P)" and tP: "t \<notin> set (map fst P)"
    and d': "d' = dict_set t p (dict_set p t d)"
  shows "engaged_inv P d'"
proof -
  have m: "\<And>z. map_of d' z = (if z = t then Some p else if z = p then Some t else map_of d z)"
    by (simp add: d' map_of_dict_set)
  have sy: "symmetric d" and dd: "distinct (map fst d)" and co: "couples P d"
    using inv by (simp_all add: engaged_inv_def)
  have dist: "distinct (map fst d')"
    using dd by (simp add: d' distinct_dict_set)
  have "symmetric d'"
    using sy p t m by (rule symmetric_engage)
  moreover have "couples P d'"
    unfolding couples_def current_match_def
  proof (intro allI impI)
    fix k v assume kv: "map_of d' k = Some v"
    show "(k \<in> set (map fst P)) = (v \<notin> set (map fst P))"
    proof (cases "k = t \<or> k = p")
      case True
      then show ?thesis using kv pP tP by (auto simp: m split: if_splits)
    next
      case False
      then have "map_of d k = Some v" using kv by (simp add: m)
      then show ?thesis using co by (rule couplesD [rotated])
    qed
  qed
  ultimately show ?thesis using dist by (simp add: engaged_inv_def)
qed

lemma engaged_inv_replace:
  assumes inv: "engaged_inv P d" and p: "map_of d p = None" and t: "map_of d t = Some c"
    and pP: "p \<in> set (map fst P)" and tP: "t \<notin> set (map fst P)"
    and d': "dict_del c (dict_set p t (dict_set t p d)) = Some d'"
  shows "engaged_inv P d'"
proof -
  have sy: "symmetric d" and dd: "distinct (map fst d)" and co: "couples P d"
    using inv by (simp_all add: engaged_inv_def)
  have "c \<in> set (map fst P)"
    using couplesD [OF co t] tP by blast
  then have ct: "c \<noteq> t" using tP by blast
  have m: "\<And>z. map_of d' z =
              (if z = c then None else if z = p then Some t else if z = t then Some p
               else map_of d z)"
    using dict_del_Some [OF d'] by (simp add: map_of_dict_set)
  have dist: "distinct (map fst d')"
    using dict_del_distinct [OF d'] dd by (simp add: distinct_dict_set)
  have "symmetric d'"
    using sy p t ct m by (rule symmetric_replace)
  moreover have "couples P d'"
    unfolding couples_def current_match_def
  proof (intro allI impI)
    fix k v assume kv: "map_of d' k = Some v"
    show "(k \<in> set (map fst P)) = (v \<notin> set (map fst P))"
    proof (cases "k = t \<or> k = p")
      case True
      then show ?thesis using kv pP tP by (auto simp: m split: if_splits)
    next
      case False
      then have "map_of d k = Some v" using kv by (simp add: m split: if_splits)
      then show ?thesis using co by (rule couplesD [rotated])
    qed
  qed
  ultimately show ?thesis using dist by (simp add: engaged_inv_def)
qed

lemma propose_inv:
  assumes wf: "well_formed P" and inv: "loop_inv P (p # todo) st"
    and step: "propose P R p st = Inr st'"
  shows "loop_inv P todo st'"
proof -
  let ?E = "engagements st"
  have einv: "engaged_inv P ?E" and dt: "distinct todo" and pt: "p \<notin> set todo"
    and sub: "set todo \<subseteq> set (map fst P)" and pP: "p \<in> set (map fst P)"
    and pfree: "map_of ?E p = None"
    and tfree: "\<And>q. q \<in> set todo \<Longrightarrow> map_of ?E q = None"
    using inv by (simp_all add: loop_inv_def is_free_map_of)
  obtain prefs where prefs: "map_of P p = Some prefs"
    using pP by (metis map_of_eq_None_iff not_Some_eq set_map)
  then have "(p, prefs) \<in> set P" by (rule map_of_SomeD)
  then have pR: "set prefs \<inter> set (map fst P) = {}"
    using wf unfolding well_formed_def by blast
  have rest: "engaged_inv P (engagements st') \<and>
              (\<forall>q \<in> set todo. map_of (engagements st') q = None)"
    using propose_engagements [OF step prefs]
  proof (elim disjE bexE exE conjE)
    assume "engagements st' = ?E"
    then show ?thesis using einv tfree by simp
  next
    fix t assume t: "t \<in> set prefs" and f: "is_free t ?E"
      and e: "engagements st' = dict_set t p (dict_set p t ?E)"
    have tP: "t \<notin> set (map fst P)" using t pR by blast
    then have tq: "t \<notin> set todo" using sub by blast
    have f': "map_of ?E t = None" using f by (simp add: is_free_map_of)
    have "engaged_inv P (engagements st')"
      using einv pfree f' pP tP e by (rule engaged_inv_engage)
    moreover have "\<forall>q \<in> set todo. map_of (engagements st') q = None"
      using tfree tq pt by (auto simp: e map_of_dict_set)
    ultimately show ?thesis by simp
  next
    fix t c assume t: "t \<in> set prefs" and c: "current_match t ?E = Some c"
      and e: "dict_del c (dict_set p t (dict_set t p ?E)) = Some (engagements st')"
    have tP: "t \<notin> set (map fst P)" using t pR by blast
    then have tq: "t \<notin> set todo" using sub by blast
    have c': "map_of ?E t = Some c" using c by (simp add: current_match_def)
    have "engaged_inv P (engagements st')"
      using einv pfree c' pP tP e by (rule engaged_inv_replace)
    moreover have "\<forall>q \<in> set todo. map_of (engagements st') q = None"
      using tfree tq pt by (auto simp: dict_del_Some [OF e] map_of_dict_set)
    ultimately show ?thesis by simp
  qed
  then show ?thesis using dt sub by (simp add: loop_inv_def is_free_map_of)
qed

lemma loop_inv_initial:
  "distinct (map fst P) \<Longrightarrow> loop_inv P (map fst P) initial"
  by (simp add: loop_inv_def engaged_inv_def symmetric_def couples_def current_match_def
        is_free_def initial_def)

lemma loop_inv_next_sweep:
  assumes "loop_inv P [] st" and "distinct free" and "set free \<subseteq> set (map fst P)"
  shows "loop_inv P (free_participants free (engagements st)) st"
  using assms by (auto simp: loop_inv_def free_participants_def is_free_def)

lemma reachable_inv:
  assumes wf: "well_formed P" and r: "reachable P R c"
  shows "loop_inv P (fst c) (snd (snd c)) \<and> distinct (fst (snd c)) \<and>
         set (fst (snd c)) \<subseteq> set (map fst P)"
  using r
proof (induction rule: reachable.induct)
  case start
  then show ?case using wf by (simp add: well_formed_def loop_inv_initial)
next
  case (proposal proposer todo free_proposers st st')
  then show ?case using wf by (auto intro: propose_inv)
next
  case (next_sweep free_proposers st still_free)
  then have "loop_inv P still_free st" by (simp add: loop_inv_next_sweep)
  moreover have "distinct still_free" "set still_free \<subseteq> set (map fst P)"
    using next_sweep by (auto simp: free_participants_def)
  ultimately show ?case by simp
qed

lemma sweep_reachable:
  "reachable P R (todo, free, st) \<Longrightarrow> sweep P R todo st = Inr st' \<Longrightarrow>
   reachable P R ([], free, st')"
proof (induction todo arbitrary: st)
  case Nil
  then show ?case by simp
next
  case (Cons p todo)
  then show ?case
    by (auto split: sum.splits intro: reachable.proposal)
qed

lemma while_loop_reachable:
  "reachable P R (free, free, st) \<Longrightarrow> while_loop n P R (free, st) = Some (Inr st') \<Longrightarrow>
   reachable P R ([], [], st')"
proof (induction n arbitrary: free st)
  case 0
  then show ?case by (simp split: if_splits)
next
  case (Suc n)
  show ?case
  proof (cases "free = []")
    case True
    then show ?thesis using Suc.prems by simp
  next
    case False
    then obtain st1 where sw: "sweep P R free st = Inr st1"
      and w: "while_loop n P R (free_participants free (engagements st1), st1) = Some (Inr st')"
      using Suc.prems(2) by (auto simp: round_def split: sum.splits)
    have "reachable P R ([], free, st1)"
      using Suc.prems(1) sw by (rule sweep_reachable)
    then have "reachable P R (free_participants free (engagements st1),
                 free_participants free (engagements st1), st1)"
      by (rule reachable.next_sweep) simp
    then show ?thesis using w by (rule Suc.IH)
  qed
qed

text \<open>
  C9, as amended. For an input in which no proposer's preference list names a proposer,
  at every point between the proposal steps of the loop
  the engagement map is symmetric (\<open>engagements[x] = y\<close> implies \<open>engagements[y] = x\<close>) and no
  participant is a key twice; every update (a first engagement, or a replacement with the
  deletion of the incumbent's entry) leads to such a point again.
\<close>

theorem engagements_symmetric:
  assumes "well_formed proposers"
    and "reachable proposers receivers (todo, free_proposers, st)"
  shows "symmetric (engagements st) \<and> distinct (map fst (engagements st))"
  using reachable_inv [OF assms] by (simp add: loop_inv_def engaged_inv_def)

text \<open>The witness is the point after a first engagement and a replacement.\<close>

theorem engagements_symmetric_witness:
  "well_formed rival_proposers \<and>
   reachable rival_proposers rival_receivers
     ([], [''a'', ''b''],
      \<lparr>proposal_history = (\<lambda>k. [])(''a'' := [''x''], ''b'' := [''x'']),
       engagements = [(''x'', ''b''), (''b'', ''x'')]\<rparr>) \<and>
   symmetric [(''x'', ''b''), (''b'', ''x'')] \<and>
   distinct (map fst [(''x'', ''b''), (''b'', ''x'')])"
proof -
  let ?st1 = "\<lparr>proposal_history = (\<lambda>k. [])(''a'' := [''x'']),
              engagements = [(''a'', ''x''), (''x'', ''a'')]\<rparr>"
  let ?st2 = "\<lparr>proposal_history = (\<lambda>k. [])(''a'' := [''x''], ''b'' := [''x'']),
              engagements = [(''x'', ''b''), (''b'', ''x'')]\<rparr>"
  have wf: "well_formed rival_proposers"
    by (simp add: well_formed_def rival_proposers_def)
  have "reachable rival_proposers rival_receivers
          (map fst rival_proposers, map fst rival_proposers, initial)"
    by (rule reachable.start)
  then have r0: "reachable rival_proposers rival_receivers
                   (''a'' # [''b''], [''a'', ''b''], initial)"
    by (simp add: rival_proposers_def)
  have step1: "propose rival_proposers rival_receivers ''a'' initial = Inr ?st1"
    by (simp add: run_defs rival_proposers_def rival_receivers_def)
  have r1: "reachable rival_proposers rival_receivers (''b'' # [], [''a'', ''b''], ?st1)"
    using r0 step1 by (rule reachable.proposal)
  have step2: "propose rival_proposers rival_receivers ''b'' ?st1 = Inr ?st2"
    by (simp add: run_defs rival_proposers_def rival_receivers_def)
  have r2: "reachable rival_proposers rival_receivers ([], [''a'', ''b''], ?st2)"
    using r1 step2 by (rule reachable.proposal)
  show ?thesis using engagements_symmetric [OF wf r2] wf r2 by simp
qed

text \<open>
  C9 as stated fails on the code: the validation accepts an input in which proposer \<open>a\<close>
  ranks proposer \<open>b\<close>. In the first sweep \<open>a\<close> is engaged to \<open>b\<close>, then \<open>b\<close>, still in the
  list being swept, is engaged to \<open>x\<close>: \<open>engagements[a]\<close> is \<open>b\<close> while \<open>engagements[b]\<close> is \<open>x\<close>.
\<close>

theorem crossed_engagements_asymmetric:
  "all_preferences [(''A'', crossed_proposers), (''B'', crossed_receivers)] = Inr True \<and>
   reachable crossed_proposers crossed_receivers
     ([], [''a'', ''b''],
      \<lparr>proposal_history = (\<lambda>k. [])(''a'' := [''b''], ''b'' := [''x'']),
       engagements = [(''a'', ''b''), (''b'', ''x''), (''x'', ''b'')]\<rparr>) \<and>
   current_match ''a'' [(''a'', ''b''), (''b'', ''x''), (''x'', ''b'')] = Some ''b'' \<and>
   current_match ''b'' [(''a'', ''b''), (''b'', ''x''), (''x'', ''b'')] = Some ''x'' \<and>
   \<not> symmetric [(''a'', ''b''), (''b'', ''x''), (''x'', ''b'')]"
proof -
  let ?st1 = "\<lparr>proposal_history = (\<lambda>k. [])(''a'' := [''b'']),
              engagements = [(''a'', ''b''), (''b'', ''a'')]\<rparr>"
  let ?st2 = "\<lparr>proposal_history = (\<lambda>k. [])(''a'' := [''b''], ''b'' := [''x'']),
              engagements = [(''a'', ''b''), (''b'', ''x''), (''x'', ''b'')]\<rparr>"
  have valid: "all_preferences [(''A'', crossed_proposers), (''B'', crossed_receivers)]
                 = Inr True"
    by (simp add: all_preferences_def check_people_def crossed_proposers_def
          crossed_receivers_def)
  have "reachable crossed_proposers crossed_receivers
          (map fst crossed_proposers, map fst crossed_proposers, initial)"
    by (rule reachable.start)
  then have r0: "reachable crossed_proposers crossed_receivers
                   (''a'' # [''b''], [''a'', ''b''], initial)"
    by (simp add: crossed_proposers_def)
  have step1: "propose crossed_proposers crossed_receivers ''a'' initial = Inr ?st1"
    by (simp add: run_defs crossed_proposers_def crossed_receivers_def)
  have r1: "reachable crossed_proposers crossed_receivers (''b'' # [], [''a'', ''b''], ?st1)"
    using r0 step1 by (rule reachable.proposal)
  have step2: "propose crossed_proposers crossed_receivers ''b'' ?st1 = Inr ?st2"
    by (simp add: run_defs crossed_proposers_def crossed_receivers_def)
  have r2: "reachable crossed_proposers crossed_receivers ([], [''a'', ''b''], ?st2)"
    using r1 step2 by (rule reachable.proposal)
  have a: "current_match ''a'' [(''a'', ''b''), (''b'', ''x''), (''x'', ''b'')] = Some ''b''"
    and b: "current_match ''b'' [(''a'', ''b''), (''b'', ''x''), (''x'', ''b'')] = Some ''x''"
    by (simp_all add: current_match_def)
  have "\<not> symmetric [(''a'', ''b''), (''b'', ''x''), (''x'', ''b'')]"
  proof
    assume "symmetric [(''a'', ''b''), (''b'', ''x''), (''x'', ''b'')]"
    then have "current_match ''b'' [(''a'', ''b''), (''b'', ''x''), (''x'', ''b'')] = Some ''a''"
      using a unfolding symmetric_def by blast
    then show False using b by simp
  qed
  then show ?thesis using valid r2 a b by blast
qed

lemma preferred_None_iff: "preferred a b xs = None \<longleftrightarrow> a \<notin> set xs \<and> b \<notin> set xs"
  by (induction xs) auto

lemma check_people_iff:
  "check_people people others \<longleftrightarrow> (\<forall>(name, prefs) \<in> set people. set others \<subseteq> set prefs)"
  by (auto simp: check_people_def list_all_iff)

lemma all_preferences_two:
  "sa \<noteq> sb \<Longrightarrow>
   all_preferences [(sa, A), (sb, B)] =
     Inr (check_people A (map fst B) \<and> check_people B (map fst A))"
  by (simp add: all_preferences_def)

lemma all_preferences_same: "all_preferences [(sa, A), (sa, B)] = Inl KeyError"
  by (simp add: all_preferences_def)

text \<open>
  C10, as amended. \<open>preferred\<close> returns \<open>None\<close> exactly when neither \<open>a\<close> nor \<open>b\<close> is in the
  list. When the validation succeeded, then at every point of the loop where the next
  proposer's target is engaged and is a key of the receivers (the only place that calls
  \<open>preferred\<close>, line 150), the first person passed is the proposer, a member of the
  proposing side, and the list passed is the target's, which contains every proposer: the
  call returns a boolean. The incumbent passed second is a proposer as well when no
  proposer's preference list names a proposer, which the validation does not ensure.
\<close>

theorem preferred_returns_boolean_in_loop:
  assumes valid: "all_preferences [(sa, proposers), (sb, receivers)] = Inr True"
    and reach: "reachable proposers receivers (proposer # todo, free_proposers, st)"
    and prefs: "map_of proposers proposer = Some preferences"
    and tgt: "next_target preferences (proposal_history st proposer) = Some target"
    and busy: "\<not> is_free target (engagements st)"
    and tp: "map_of receivers target = Some target_preferences"
  shows "(\<forall>a b xs. preferred a b xs = None \<longleftrightarrow> a \<notin> set xs \<and> b \<notin> set xs) \<and>
         (\<exists>current.
            current_match target (engagements st) = Some current \<and>
            proposer \<in> set (map fst proposers) \<and>
            set (map fst proposers) \<subseteq> set target_preferences \<and>
            preferred proposer current target_preferences \<noteq> None \<and>
            (well_formed proposers \<longrightarrow> current \<in> set (map fst proposers)))"
proof -
  have ne: "sa \<noteq> sb" using valid by (auto simp: all_preferences_same)
  then have complete: "check_people receivers (map fst proposers)"
    using valid by (simp add: all_preferences_two)
  have "(proposer, preferences) \<in> set proposers" using prefs by (rule map_of_SomeD)
  then have pP: "proposer \<in> set (map fst proposers)" by force
  obtain current where cur: "map_of (engagements st) target = Some current"
    using busy by (auto simp: is_free_map_of)
  have "(target, target_preferences) \<in> set receivers" using tp by (rule map_of_SomeD)
  then have all: "set (map fst proposers) \<subseteq> set target_preferences"
    using complete unfolding check_people_iff by force
  have some: "preferred proposer current target_preferences \<noteq> None"
    using pP all by (auto simp: preferred_None_iff)
  have "current \<in> set (map fst proposers)" if wf: "well_formed proposers"
  proof -
    have "loop_inv proposers (proposer # todo) st"
      using reachable_inv [OF wf reach] by simp
    then have co: "couples proposers (engagements st)"
      by (simp add: loop_inv_def engaged_inv_def)
    have "(proposer, preferences) \<in> set proposers" using prefs by (rule map_of_SomeD)
    then have "set preferences \<inter> set (map fst proposers) = {}"
      using wf unfolding well_formed_def by blast
    moreover have "target \<in> set preferences"
      using tgt by (auto simp: next_target_def dest: find_SomeD)
    ultimately have "target \<notin> set (map fst proposers)" by blast
    then show ?thesis using couplesD [OF co cur] by blast
  qed
  then show ?thesis
    using cur pP all some by (simp add: current_match_def preferred_None_iff)
qed

theorem preferred_returns_boolean_in_loop_witness:
  "all_preferences [(''A'', surplus_proposers), (''B'', surplus_receivers)] = Inr True \<and>
   reachable surplus_proposers surplus_receivers
     ([''b''], [''a'', ''b''],
      \<lparr>proposal_history = (\<lambda>k. [])(''a'' := [''x'']),
       engagements = [(''a'', ''x''), (''x'', ''a'')]\<rparr>) \<and>
   map_of surplus_proposers ''b'' = Some [''x''] \<and>
   next_target [''x''] (((\<lambda>k. [])(''a'' := [''x''])) ''b'') = Some ''x'' \<and>
   \<not> is_free ''x'' [(''a'', ''x''), (''x'', ''a'')] \<and>
   map_of surplus_receivers ''x'' = Some [''a'', ''b''] \<and>
   current_match ''x'' [(''a'', ''x''), (''x'', ''a'')] = Some ''a'' \<and>
   preferred ''b'' ''a'' [''a'', ''b''] = Some False"
proof -
  let ?st = "\<lparr>proposal_history = (\<lambda>k. [])(''a'' := [''x'']),
             engagements = [(''a'', ''x''), (''x'', ''a'')]\<rparr>"
  have valid: "all_preferences [(''A'', surplus_proposers), (''B'', surplus_receivers)] = Inr True"
    by (simp add: all_preferences_def check_people_def surplus_proposers_def
          surplus_receivers_def)
  have "reachable surplus_proposers surplus_receivers
          (map fst surplus_proposers, map fst surplus_proposers, initial)"
    by (rule reachable.start)
  then have r0: "reachable surplus_proposers surplus_receivers
                   (''a'' # [''b''], [''a'', ''b''], initial)"
    by (simp add: surplus_proposers_def)
  have step: "propose surplus_proposers surplus_receivers ''a'' initial = Inr ?st"
    by (simp add: run_defs surplus_proposers_def surplus_receivers_def)
  have r1: "reachable surplus_proposers surplus_receivers
              (''b'' # [], [''a'', ''b''], ?st)"
    using r0 step by (rule reachable.proposal)
  have prefs: "map_of surplus_proposers ''b'' = Some [''x'']"
    by (simp add: surplus_proposers_def)
  have tgt: "next_target [''x''] (proposal_history ?st ''b'') = Some ''x''"
    by (simp add: next_target_def)
  have busy: "\<not> is_free ''x'' (engagements ?st)"
    by (simp add: is_free_def)
  have rx: "map_of surplus_receivers ''x'' = Some [''a'', ''b'']"
    by (simp add: surplus_receivers_def)
  show ?thesis
    using preferred_returns_boolean_in_loop [OF valid r1 prefs tgt busy rx]
      valid r1 prefs tgt busy rx
    by (simp add: current_match_def)
qed

text \<open>
  C10 as stated fails on the code: the validation accepts an input in which \<open>a\<close> is a key of
  both sides. After \<open>a\<close> is engaged to \<open>x\<close>, proposer \<open>b\<close> proposes to \<open>a\<close>, whose current
  match is \<open>x\<close>: the call is \<open>preferred(b, x, [a, b])\<close>, and \<open>x\<close> is not a proposer.
\<close>

theorem incumbent_not_a_proposer:
  "all_preferences [(''A'', overlapping_proposers), (''B'', overlapping_receivers)]
     = Inr True \<and>
   reachable overlapping_proposers overlapping_receivers
     ([''b''], [''a'', ''b''],
      \<lparr>proposal_history = (\<lambda>k. [])(''a'' := [''x'']),
       engagements = [(''a'', ''x''), (''x'', ''a'')]\<rparr>) \<and>
   map_of overlapping_proposers ''b'' = Some [''a'', ''x''] \<and>
   next_target [''a'', ''x''] (((\<lambda>k. [])(''a'' := [''x''])) ''b'') = Some ''a'' \<and>
   \<not> is_free ''a'' [(''a'', ''x''), (''x'', ''a'')] \<and>
   current_match ''a'' [(''a'', ''x''), (''x'', ''a'')] = Some ''x'' \<and>
   map_of overlapping_receivers ''a'' = Some [''a'', ''b''] \<and>
   ''x'' \<notin> set (map fst overlapping_proposers) \<and>
   preferred ''b'' ''x'' [''a'', ''b''] = Some True"
proof -
  let ?st = "\<lparr>proposal_history = (\<lambda>k. [])(''a'' := [''x'']),
             engagements = [(''a'', ''x''), (''x'', ''a'')]\<rparr>"
  have valid: "all_preferences [(''A'', overlapping_proposers), (''B'', overlapping_receivers)]
                 = Inr True"
    by (simp add: all_preferences_def check_people_def overlapping_proposers_def
          overlapping_receivers_def)
  have "reachable overlapping_proposers overlapping_receivers
          (map fst overlapping_proposers, map fst overlapping_proposers, initial)"
    by (rule reachable.start)
  then have r0: "reachable overlapping_proposers overlapping_receivers
                   (''a'' # [''b''], [''a'', ''b''], initial)"
    by (simp add: overlapping_proposers_def)
  have step: "propose overlapping_proposers overlapping_receivers ''a'' initial = Inr ?st"
    by (simp add: run_defs overlapping_proposers_def overlapping_receivers_def)
  have r1: "reachable overlapping_proposers overlapping_receivers
              ([''b''], [''a'', ''b''], ?st)"
    using r0 step by (rule reachable.proposal)
  show ?thesis
    using valid r1
    by (simp add: overlapping_proposers_def overlapping_receivers_def next_target_def
          is_free_def current_match_def)
qed

section \<open>The result\<close>

lemma stable_matching_two:
  assumes "stable_matching enum fuel [(sa, P), (sb, R)] = Some (Inr out)"
  shows "\<exists>st. while_loop fuel P R (map fst P, initial) = Some (Inr st) \<and>
              out = enum (compose (engagements st) [])"
proof (cases "sa = sb")
  case True
  then show ?thesis using assms by (simp add: stable_matching_def all_preferences_same)
next
  case False
  then show ?thesis using assms
    by (auto simp: stable_matching_def all_preferences_two split: if_splits option.splits sum.splits)
qed

lemma compose_subset: "set (compose items acc) \<subseteq> set acc \<union> set items"
proof (induction items arbitrary: acc)
  case Nil
  show ?case by simp
next
  case (Cons kv items)
  obtain a b where kv: "kv = (a, b)" by (cases kv)
  show ?case using Cons.IH [of "acc"] Cons.IH [of "acc @ [(a, b)]"]
    by (auto simp: kv)
qed

lemma compose_distinct: "distinct acc \<Longrightarrow> distinct (compose items acc)"
proof (induction items arbitrary: acc)
  case Nil
  then show ?case by simp
next
  case (Cons kv items)
  obtain a b where kv: "kv = (a, b)" by (cases kv)
  show ?case using Cons.IH [of "acc"] Cons.IH [of "acc @ [(a, b)]"] Cons.prems
    by (auto simp: kv)
qed

lemma compose_one_way:
  "one_way acc \<Longrightarrow> \<forall>(a, b) \<in> set items. a \<noteq> b \<Longrightarrow> one_way (compose items acc)"
proof (induction items arbitrary: acc)
  case Nil
  then show ?case by simp
next
  case (Cons kv items)
  obtain a b where kv: "kv = (a, b)" by (cases kv)
  have ab: "a \<noteq> b" and rest: "\<forall>(a, b) \<in> set items. a \<noteq> b"
    using Cons.prems(2) by (auto simp: kv)
  show ?case
  proof (cases "(b, a) \<notin> set acc \<and> (a, b) \<notin> set acc")
    case True
    have "one_way (acc @ [(a, b)])"
      using Cons.prems(1) True ab unfolding one_way_def by auto
    then have "one_way (compose items (acc @ [(a, b)]))"
      using rest by (rule Cons.IH)
    then show ?thesis using True by (simp add: kv)
  next
    case False
    have "one_way (compose items acc)"
      using Cons.prems(1) rest by (rule Cons.IH)
    then show ?thesis using False by (auto simp: kv)
  qed
qed

lemma engaged_inv_at_exit:
  assumes wf: "well_formed P"
    and run: "while_loop fuel P R (map fst P, initial) = Some (Inr st)"
  shows "engaged_inv P (engagements st)"
proof -
  have "reachable P R (map fst P, map fst P, initial)" by (rule reachable.start)
  then have "reachable P R ([], [], st)" using run by (rule while_loop_reachable)
  then show ?thesis using reachable_inv [OF wf] by (fastforce simp: loop_inv_def)
qed

lemma engaged_entry:
  assumes "engaged_inv P d" and "(a, b) \<in> set d"
  shows "map_of d a = Some b"
  using assms by (simp add: engaged_inv_def)

lemma compose_mono: "set acc \<subseteq> set (compose items acc)"
proof (induction items arbitrary: acc)
  case Nil
  show ?case by simp
next
  case (Cons kv items)
  obtain a b where kv: "kv = (a, b)" by (cases kv)
  show ?case using Cons.IH [of "acc"] Cons.IH [of "acc @ [(a, b)]"]
    by (auto simp: kv)
qed

lemma compose_covers:
  "(a, b) \<in> set items \<Longrightarrow>
   (a, b) \<in> set (compose items acc) \<or> (b, a) \<in> set (compose items acc)"
proof (induction items arbitrary: acc)
  case Nil
  then show ?case by simp
next
  case (Cons kv items)
  obtain c d where kv: "kv = (c, d)" by (cases kv)
  show ?case
  proof (cases "(a, b) = (c, d)")
    case True
    let ?acc = "if (d, c) \<notin> set acc
                then (if (c, d) \<in> set acc then acc else acc @ [(c, d)]) else acc"
    have "(c, d) \<in> set ?acc \<or> (d, c) \<in> set ?acc" by simp
    moreover have "set ?acc \<subseteq> set (compose items ?acc)" by (rule compose_mono)
    ultimately have "(c, d) \<in> set (compose items ?acc) \<or> (d, c) \<in> set (compose items ?acc)"
      by blast
    then show ?thesis using True by (simp add: kv)
  next
    case False
    then have "(a, b) \<in> set items" using Cons.prems by (auto simp: kv)
    then show ?thesis using Cons.IH by (simp add: kv)
  qed
qed

text \<open>
  C7, as amended. For an input in which no proposer's preference list names a proposer,
  whenever \<open>stable_matching\<close> returns a list: every couple
  of the final engagement map is in it, in one orientation; it holds nothing else; no pair
  occurs in it twice; it never holds both \<open>(a, b)\<close> and \<open>(b, a)\<close>; and two different pairs of
  it share no participant, so that every participant occurs in at most one pair.
\<close>

theorem output_pairs_disjoint:
  assumes wf: "well_formed proposers"
    and en: "enumeration enum"
    and run: "stable_matching enum fuel [(sa, proposers), (sb, receivers)] = Some (Inr out)"
  shows "\<exists>st. while_loop fuel proposers receivers (map fst proposers, initial)
                = Some (Inr st) \<and>
              (\<forall>a b. current_match a (engagements st) = Some b \<longrightarrow>
                 (a, b) \<in> set out \<or> (b, a) \<in> set out) \<and>
              set out \<subseteq> set (engagements st) \<and>
              distinct out \<and>
              (\<forall>a b. (a, b) \<in> set out \<longrightarrow> (b, a) \<notin> set out) \<and>
              (\<forall>pr \<in> set out. \<forall>pr' \<in> set out.
                 pr \<noteq> pr' \<longrightarrow> {fst pr, snd pr} \<inter> {fst pr', snd pr'} = {})"
proof -
  obtain st where w: "while_loop fuel proposers receivers (map fst proposers, initial)
                        = Some (Inr st)"
    and out: "out = enum (compose (engagements st) [])"
    using stable_matching_two [OF run] by blast
  let ?E = "engagements st"
  have so: "set out = set (compose ?E [])"
    unfolding out using en by (rule enumeration_set)
  have inv: "engaged_inv proposers ?E" using wf w by (rule engaged_inv_at_exit)
  then have sy: "symmetric ?E" and co: "couples proposers ?E"
    by (simp_all add: engaged_inv_def)
  have sub: "set out \<subseteq> set ?E" using compose_subset [of ?E "[]"] by (simp add: so)
  have ent: "\<And>a b. (a, b) \<in> set out \<Longrightarrow> map_of ?E a = Some b"
    using sub engaged_entry [OF inv] by blast
  have conv: "\<And>a b. (a, b) \<in> set out \<Longrightarrow> map_of ?E b = Some a"
    using ent sy unfolding symmetric_def current_match_def by blast
  have all: "\<forall>a b. current_match a ?E = Some b \<longrightarrow> (a, b) \<in> set out \<or> (b, a) \<in> set out"
  proof (intro allI impI)
    fix a b assume "current_match a ?E = Some b"
    then have "(a, b) \<in> set ?E" by (simp add: current_match_def map_of_SomeD)
    then show "(a, b) \<in> set out \<or> (b, a) \<in> set out"
      unfolding so by (rule compose_covers)
  qed
  have irrefl: "\<forall>(a, b) \<in> set ?E. a \<noteq> b"
  proof clarify
    fix a assume "(a, a) \<in> set ?E"
    then have "map_of ?E a = Some a" by (rule engaged_entry [OF inv])
    then show False using couplesD [OF co] by blast
  qed
  have d: "distinct out"
    unfolding out by (simp add: enumeration_distinct [OF en] compose_distinct)
  have "one_way []" by (simp add: one_way_def)
  then have "one_way (compose ?E [])" using irrefl by (rule compose_one_way)
  then have ow: "one_way out" by (simp add: one_way_def so)
  have apart: "\<forall>pr \<in> set out. \<forall>pr' \<in> set out.
                 pr \<noteq> pr' \<longrightarrow> {fst pr, snd pr} \<inter> {fst pr', snd pr'} = {}"
  proof (intro ballI impI)
    fix pr pr' assume m: "pr \<in> set out" "pr' \<in> set out" and ne: "pr \<noteq> pr'"
    obtain a b where pr: "pr = (a, b)" by (cases pr)
    obtain c e where pr': "pr' = (c, e)" by (cases pr')
    have 1: "map_of ?E a = Some b" "map_of ?E b = Some a"
      using m(1) ent conv by (simp_all add: pr)
    have 2: "map_of ?E c = Some e" "map_of ?E e = Some c"
      using m(2) ent conv by (simp_all add: pr')
    have "a \<noteq> c" using 1 2 ne by (auto simp: pr pr')
    moreover have "b \<noteq> e" using 1 2 ne by (auto simp: pr pr')
    moreover have "a \<noteq> e"
    proof
      assume "a = e"
      then have "pr' = (b, a)" using 1 2 by (simp add: pr')
      then show False using ow m unfolding one_way_def pr by blast
    qed
    moreover have "b \<noteq> c"
    proof
      assume "b = c"
      then have "pr' = (b, a)" using 1 2 by (simp add: pr')
      then show False using ow m unfolding one_way_def pr by blast
    qed
    ultimately show "{fst pr, snd pr} \<inter> {fst pr', snd pr'} = {}"
      by (simp add: pr pr')
  qed
  have "(\<forall>a b. (a, b) \<in> set out \<longrightarrow> (b, a) \<notin> set out)"
    using ow unfolding one_way_def by blast
  then show ?thesis using w all sub d apart by blast
qed

lemma sample_well_formed: "well_formed sample_proposers"
  by (simp add: well_formed_def sample_proposers_def)

theorem output_pairs_disjoint_witness:
  "well_formed sample_proposers \<and> enumeration rev \<and>
   stable_matching rev 2 [(''side_A'', sample_proposers), (''side_B'', sample_receivers)] =
     Some (Inr [(''asd'', ''912''), (''abc'', ''451''), (''123'', ''pqq'')]) \<and>
   distinct [(''asd'', ''912''), (''abc'', ''451''), (''123'', ''pqq'')] \<and>
   (''pqq'', ''123'') \<notin> set [(''asd'', ''912''), (''abc'', ''451''), (''123'', ''pqq'')]"
proof -
  let ?out = "[(''asd'', ''912''), (''abc'', ''451''), (''123'', ''pqq'')]"
  have run: "stable_matching rev 2 [(''side_A'', sample_proposers), (''side_B'', sample_receivers)] =
               Some (Inr ?out)"
    using sample_run [of rev 0] by (simp add: sample_participants_def numeral_2_eq_2)
  obtain st where
    d: "distinct ?out" and ow: "\<forall>a b. (a, b) \<in> set ?out \<longrightarrow> (b, a) \<notin> set ?out"
    using output_pairs_disjoint [OF sample_well_formed enumeration_rev run] by blast
  have mem: "(''123'', ''pqq'') \<in> set ?out" by simp
  have r: "(''pqq'', ''123'') \<notin> set ?out" using ow mem by blast
  show ?thesis using sample_well_formed enumeration_rev run d r by blast
qed

text \<open>
  C7 as stated fails on the code: on the validated input in which proposer \<open>a\<close> ranks
  proposer \<open>b\<close>, one sweep leaves the map \<open>{a: b, b: x, x: b}\<close>, and the result holds both
  \<open>(a, b)\<close> and \<open>(b, x)\<close>: \<open>b\<close> is in two pairs.
\<close>

theorem crossed_participant_in_two_pairs:
  "all_preferences [(''A'', crossed_proposers), (''B'', crossed_receivers)] = Inr True \<and>
   enumeration id \<and>
   stable_matching id 1 [(''A'', crossed_proposers), (''B'', crossed_receivers)]
     = Some (Inr [(''a'', ''b''), (''b'', ''x'')])"
  by (simp add: run_defs crossed_proposers_def crossed_receivers_def enumeration_id)

text \<open>
  C6. The claim fails on the code: on the example of the module the proposing side is
  \<open>side_A\<close>, and the result holds \<open>(123, pqq)\<close>, which starts with a member of the receiving
  side, next to \<open>(abc, 451)\<close>, which starts with a proposer. A first engagement (lines 143
  and 144) writes \<open>engagements[proposer]\<close> first; a replacement (lines 152 and 153) writes
  \<open>engagements[target]\<close>, a key already in the map, before \<open>engagements[proposer]\<close>, so the
  receiver's entry comes first and the composer keeps that orientation.
\<close>

theorem receiver_listed_first:
  assumes "enumeration enum"
  shows "stable_matching enum (Suc (Suc n)) sample_participants =
           Some (Inr (enum [(''123'', ''pqq''), (''abc'', ''451''), (''asd'', ''912'')])) \<and>
         (''123'', ''pqq'') \<in> set (enum [(''123'', ''pqq''), (''abc'', ''451''), (''asd'', ''912'')]) \<and>
         (''abc'', ''451'') \<in> set (enum [(''123'', ''pqq''), (''abc'', ''451''), (''asd'', ''912'')]) \<and>
         fst (hd sample_participants) = ''side_A'' \<and>
         map_of sample_participants ''side_A'' = Some sample_proposers \<and>
         map_of sample_participants ''side_B'' = Some sample_receivers \<and>
         ''123'' \<notin> set (map fst sample_proposers) \<and>
         ''123'' \<in> set (map fst sample_receivers) \<and>
         ''abc'' \<in> set (map fst sample_proposers)"
  using sample_run [of enum n] enumeration_set [OF assms]
  by (simp add: sample_participants_def sample_proposers_def sample_receivers_def)

theorem receiver_listed_first_witness:
  "enumeration rev \<and>
   stable_matching rev 2 sample_participants =
     Some (Inr [(''asd'', ''912''), (''abc'', ''451''), (''123'', ''pqq'')]) \<and>
   ''123'' \<in> set (map fst sample_receivers)"
  using receiver_listed_first [OF enumeration_rev, of 0] enumeration_rev
  by (simp add: numeral_2_eq_2)






section \<open>Validation\<close>

lemma propose_not_missing: "propose P R p st \<noteq> Inl MissingPreferences"
  by (simp add: propose_def Let_def split: option.splits)

lemma sweep_not_missing: "sweep P R todo st \<noteq> Inl MissingPreferences"
  by (induction todo arbitrary: st) (auto simp: propose_not_missing split: sum.splits)

lemma while_loop_not_missing: "while_loop n P R (free, st) \<noteq> Some (Inl MissingPreferences)"
proof (induction n arbitrary: free st)
  case 0
  show ?case by simp
next
  case (Suc n)
  show ?case
    using Suc.IH sweep_not_missing [of P R free st]
    by (auto simp: round_def split: sum.splits)
qed

text \<open>
  C4. On two sides, \<open>stable_matching\<close> raises \<open>MissingPreferences\<close> if and only if the
  preference list of some participant omits a participant of the opposite side. It does so
  whatever the fuel, also with none: no sweep of the proposal loop has run, and the result
  is the error alone, with no matching.
\<close>

theorem missing_preferences_iff:
  assumes "sa \<noteq> sb"
  shows "stable_matching enum fuel [(sa, A), (sb, B)] = Some (Inl MissingPreferences) \<longleftrightarrow>
         (\<exists>(name, preferences) \<in> set A. \<exists>p \<in> set (map fst B). p \<notin> set preferences) \<or>
         (\<exists>(name, preferences) \<in> set B. \<exists>p \<in> set (map fst A). p \<notin> set preferences)"
proof (cases "check_people A (map fst B) \<and> check_people B (map fst A)")
  case True
  have "stable_matching enum fuel [(sa, A), (sb, B)] \<noteq> Some (Inl MissingPreferences)"
    using assms True while_loop_not_missing [of fuel A B "map fst A" initial]
    by (auto simp: stable_matching_def all_preferences_two split: option.splits sum.splits)
  moreover have "\<not> ((\<exists>(name, preferences) \<in> set A. \<exists>p \<in> set (map fst B). p \<notin> set preferences) \<or>
         (\<exists>(name, preferences) \<in> set B. \<exists>p \<in> set (map fst A). p \<notin> set preferences))"
    using True unfolding check_people_iff by blast
  ultimately show ?thesis by blast
next
  case False
  then have "stable_matching enum fuel [(sa, A), (sb, B)] = Some (Inl MissingPreferences)"
    using assms by (auto simp: stable_matching_def all_preferences_two)
  moreover have "(\<exists>(name, preferences) \<in> set A. \<exists>p \<in> set (map fst B). p \<notin> set preferences) \<or>
         (\<exists>(name, preferences) \<in> set B. \<exists>p \<in> set (map fst A). p \<notin> set preferences)"
    using False unfolding check_people_iff by blast
  ultimately show ?thesis by blast
qed

theorem missing_preferences_iff_witness:
  "''A'' \<noteq> ''B'' \<and>
   stable_matching id 0 [(''A'', [(''a'', [''x'']), (''b'', [])]), (''B'', [(''x'', [''a'', ''b''])])]
     = Some (Inl MissingPreferences)"
proof -
  have ne: "''A'' \<noteq> ''B''" by simp
  have "\<exists>(name, preferences) \<in> set [(''a'', [''x'']), (''b'', [])].
          \<exists>p \<in> set (map fst [(''x'', [''a'', ''b''])]). p \<notin> set preferences"
    by simp
  then show ?thesis
    using missing_preferences_iff [OF ne, of id 0 "[(''a'', [''x'']), (''b'', [])]"
            "[(''x'', [''a'', ''b''])]"] ne
    by blast
qed

end
